theory Spec2Isabelle
  imports Main "HOL-Library.Word"
begin

unbundle bit_operations_syntax

section \<open>Data model\<close>

text \<open>
  A Go \<open>[]byte\<close> is a list of 8-bit words. A Go \<open>string\<close> is a sequence of bytes as
  well, which is what \<^typ>\<open>string\<close> (a list of 8-bit characters) is. Lengths and offsets
  are \<open>int64\<close> in the source; a slice or a file never holds \<open>2 ^ 63\<close> bytes, so none of
  the additions below can wrap and they are modelled on \<^typ>\<open>int\<close>.
\<close>

type_synonym byte = "8 word"

section \<open>findPattern\<close>

text \<open>
  The slice expression \<open>data[lo:hi]\<close>. Go panics unless \<open>0 \<le> lo \<le> hi \<le> cap(data)\<close>;
  the model panics (\<open>None\<close>) already when \<open>hi\<close> exceeds the length, which is never more
  than the capacity, so the model panics at least wherever the program does.
\<close>

definition slice :: "'a list \<Rightarrow> int \<Rightarrow> int \<Rightarrow> 'a list option" where
  "slice xs lo hi =
     (if 0 \<le> lo \<and> lo \<le> hi \<and> hi \<le> int (length xs)
      then Some (take (nat (hi - lo)) (drop (nat lo) xs))
      else None)"

text \<open>
  The loop of \<open>findPattern\<close> (lines 20 to 24), from the counter \<open>i\<close> and the positions
  appended so far. \<open>bytes.Equal\<close> is equality of the byte sequences.
\<close>

function findPattern_loop :: "byte list \<Rightarrow> byte list \<Rightarrow> int \<Rightarrow> int list \<Rightarrow> int list option" where
  "findPattern_loop data pattern i positions =
     (let dataLen = int (length data); patternLen = int (length pattern) in
      if i \<le> dataLen - patternLen then
        (case slice data i (i + patternLen) of
           None \<Rightarrow> None
         | Some window \<Rightarrow>
             findPattern_loop data pattern (i + 1)
               (if window = pattern then positions @ [i] else positions))
      else Some positions)"
  by pat_completeness auto
termination
  by (relation "measure (\<lambda>(data, pattern, i, positions).
        nat (int (length data) - int (length pattern) - i + 1))") auto

definition findPattern :: "byte list \<Rightarrow> byte list \<Rightarrow> int list option" where
  "findPattern data pattern = findPattern_loop data pattern 0 []"

text \<open>The property the search is about: \<open>pattern\<close> occurs in \<open>data\<close> at index \<open>i\<close>.\<close>

definition occurs_at :: "byte list \<Rightarrow> byte list \<Rightarrow> int \<Rightarrow> bool" where
  "occurs_at data pattern i \<longleftrightarrow>
     0 \<le> i \<and> i + int (length pattern) \<le> int (length data) \<and>
     take (length pattern) (drop (nat i) data) = pattern"

section \<open>Library functions used by parsePattern\<close>

text \<open>
  \<open>encoding/hex\<close>, \<open>strings\<close> and \<open>unicode/utf8\<close> are Go's standard library; the
  functions of them that \<open>parsePattern\<close> calls are modelled after the library's code.
\<close>

subsection \<open>encoding/hex\<close>

datatype hex_error = InvalidByteError char | ErrLength

text \<open>\<open>fromHexChar\<close>: the value of one hexadecimal digit, \<open>None\<close> for any other byte.\<close>

definition fromHexChar :: "char \<Rightarrow> byte option" where
  "fromHexChar c =
     (let b = (of_char c :: byte) in
      if 0x30 \<le> b \<and> b \<le> 0x39 then Some (b - 0x30)
      else if 0x61 \<le> b \<and> b \<le> 0x66 then Some (b - 0x61 + 10)
      else if 0x41 \<le> b \<and> b \<le> 0x46 then Some (b - 0x41 + 10)
      else None)"

text \<open>
  \<open>hex.Decode\<close> reads the source two bytes at a time and returns the bytes decoded before
  the first error together with that error; a last single byte is reported as an invalid
  byte when it is no digit and as a length error otherwise.
\<close>

fun Decode :: "string \<Rightarrow> byte list \<times> hex_error option" where
  "Decode [] = ([], None)"
| "Decode [p] =
     (case fromHexChar p of
        None \<Rightarrow> ([], Some (InvalidByteError p))
      | Some a \<Rightarrow> ([], Some ErrLength))"
| "Decode (p # q # src) =
     (case fromHexChar p of
        None \<Rightarrow> ([], Some (InvalidByteError p))
      | Some a \<Rightarrow>
          (case fromHexChar q of
             None \<Rightarrow> ([], Some (InvalidByteError q))
           | Some b \<Rightarrow>
               (case Decode src of (dst, err) \<Rightarrow> ((push_bit 4 a OR b) # dst, err))))"

definition DecodeString :: "string \<Rightarrow> byte list \<times> hex_error option" where
  "DecodeString s = Decode s"

text \<open>\<open>hex.EncodeToString\<close>: two digits of \<open>hextable\<close> for each byte, high nibble first.\<close>

definition hextable :: string where
  "hextable = ''0123456789abcdef''"

fun EncodeToString :: "byte list \<Rightarrow> string" where
  "EncodeToString [] = []"
| "EncodeToString (v # src) =
     hextable ! unat (drop_bit 4 v) # hextable ! unat (v AND 0x0f) # EncodeToString src"

subsection \<open>unicode/utf8 and unicode.IsSpace\<close>

definition RuneError :: nat where
  "RuneError = 0xFFFD"

text \<open>
  The table \<open>first\<close> of \<open>unicode/utf8\<close>, for a leading byte of a multi-byte encoding: the
  size of the encoding and the range accepted for its second byte. \<open>None\<close> for the bytes
  that start no such encoding.
\<close>

definition first :: "nat \<Rightarrow> (nat \<times> nat \<times> nat) option" where
  "first s0 =
     (if 0xC2 \<le> s0 \<and> s0 \<le> 0xDF then Some (2, 0x80, 0xBF)
      else if s0 = 0xE0 then Some (3, 0xA0, 0xBF)
      else if 0xE1 \<le> s0 \<and> s0 \<le> 0xEC then Some (3, 0x80, 0xBF)
      else if s0 = 0xED then Some (3, 0x80, 0x9F)
      else if 0xEE \<le> s0 \<and> s0 \<le> 0xEF then Some (3, 0x80, 0xBF)
      else if s0 = 0xF0 then Some (4, 0x90, 0xBF)
      else if 0xF1 \<le> s0 \<and> s0 \<le> 0xF3 then Some (4, 0x80, 0xBF)
      else if s0 = 0xF4 then Some (4, 0x80, 0x8F)
      else None)"

text \<open>
  \<open>utf8.DecodeRuneInString\<close>: the first code point of the string and the number of bytes
  it takes. An invalid or truncated encoding is \<open>RuneError\<close> of width 1.
\<close>

definition DecodeRuneInString :: "string \<Rightarrow> nat \<times> nat" where
  "DecodeRuneInString s =
     (case map of_char s of
        [] \<Rightarrow> (RuneError, 0)
      | s0 # rest \<Rightarrow>
          if s0 < 0x80 then (s0, 1)
          else
            (case first s0 of
               None \<Rightarrow> (RuneError, 1)
             | Some (sz, lo, hi) \<Rightarrow>
                 if length s < sz then (RuneError, 1)
                 else
                   let s1 = rest ! 0 in
                   if s1 < lo \<or> hi < s1 then (RuneError, 1)
                   else if sz \<le> 2 then (s0 mod 32 * 64 + s1 mod 64, 2)
                   else
                     let s2 = rest ! 1 in
                     if s2 < 0x80 \<or> 0xBF < s2 then (RuneError, 1)
                     else if sz \<le> 3 then (s0 mod 16 * 4096 + s1 mod 64 * 64 + s2 mod 64, 3)
                     else
                       let s3 = rest ! 2 in
                       if s3 < 0x80 \<or> 0xBF < s3 then (RuneError, 1)
                       else (s0 mod 8 * 262144 + s1 mod 64 * 4096 + s2 mod 64 * 64 + s3 mod 64, 4)))"

text \<open>\<open>unicode.IsSpace\<close>: the code points with Unicode's White_Space property.\<close>

definition IsSpace :: "nat \<Rightarrow> bool" where
  "IsSpace r \<longleftrightarrow>
     (0x09 \<le> r \<and> r \<le> 0x0D) \<or> r = 0x20 \<or> r = 0x85 \<or> r = 0xA0 \<or> r = 0x1680 \<or>
     (0x2000 \<le> r \<and> r \<le> 0x200A) \<or> r = 0x2028 \<or> r = 0x2029 \<or> r = 0x202F \<or>
     r = 0x205F \<or> r = 0x3000"

subsection \<open>strings\<close>

text \<open>
  \<open>strings.Fields\<close> splits a string around each run of white space and returns the
  non-empty pieces in order. On a string of ASCII bytes the library takes a fast path
  with the six ASCII white space bytes; otherwise it uses \<open>FieldsFunc\<close> with
  \<open>unicode.IsSpace\<close>, which walks the string code point by code point. The two agree on
  ASCII strings, so the model is the second. \<open>field\<close> is the piece being collected
  (empty when the walk is between pieces).
\<close>

function Fields_loop :: "string \<Rightarrow> string \<Rightarrow> string list" where
  "Fields_loop [] field = (if field = [] then [] else [field])"
| "Fields_loop (c # s) field =
     (case DecodeRuneInString (c # s) of (r, w) \<Rightarrow>
        if IsSpace r then
          (if field = [] then Fields_loop (drop w (c # s)) []
           else field # Fields_loop (drop w (c # s)) [])
        else Fields_loop (drop w (c # s)) (field @ take w (c # s)))"
  by pat_completeness auto
termination
proof -
  have w: "Suc (length s) - w < Suc (length s)" if "(r, w) = DecodeRuneInString (c # s)" for c s r w
  proof -
    have "0 < w"
      using that
      by (auto simp: DecodeRuneInString_def Let_def split: if_splits option.splits prod.splits)
    then show ?thesis by simp
  qed
  show ?thesis
    by (relation "measure (\<lambda>(s, field). length s)") (simp_all add: w)
qed

definition Fields :: "string \<Rightarrow> string list" where
  "Fields s = Fields_loop s []"

text \<open>\<open>strings.TrimPrefix\<close>: the string without the prefix when it starts with it.\<close>

definition TrimPrefix :: "string \<Rightarrow> string \<Rightarrow> string" where
  "TrimPrefix s prefix =
     (if take (length prefix) s = prefix then drop (length prefix) s else s)"

section \<open>parsePattern\<close>

text \<open>The error of \<open>parsePattern\<close>, \<open>invalid byte format\<close>, with the token it names.\<close>

datatype parse_error = InvalidByteFormat string

text \<open>
  The loop over the tokens (lines 39 to 48): the first token that is no single byte ends
  the parse with the error; the bytes are stored in the tokens' order.
\<close>

fun parseParts :: "string list \<Rightarrow> parse_error + byte list" where
  "parseParts [] = Inr []"
| "parseParts (part # parts) =
     (let part' = TrimPrefix part ''0x'' in
      case DecodeString part' of (byteValue, err) \<Rightarrow>
        if err \<noteq> None \<or> length byteValue \<noteq> 1 then Inl (InvalidByteFormat part')
        else
          (case parseParts parts of
             Inl e \<Rightarrow> Inl e
           | Inr pattern \<Rightarrow> Inr (byteValue ! 0 # pattern)))"

definition parsePattern :: "string \<Rightarrow> parse_error + byte list" where
  "parsePattern input =
     (case DecodeString input of (pattern, err) \<Rightarrow>
        if err = None then Inr pattern
        else parseParts (Fields input))"

subsection \<open>The two input formats\<close>

text \<open>
  The formats as the documentation of the parser names them: a hexadecimal digit in
  either case, a contiguous hex string of even length, and a token of exactly two
  hexadecimal digits.
\<close>

definition isHexDigit :: "char \<Rightarrow> bool" where
  "isHexDigit c \<longleftrightarrow> c \<in> set ''0123456789abcdefABCDEF''"

definition hexString :: "string \<Rightarrow> bool" where
  "hexString s \<longleftrightarrow> even (length s) \<and> list_all isHexDigit s"

definition twoHexDigits :: "string \<Rightarrow> bool" where
  "twoHexDigits t \<longleftrightarrow> length t = 2 \<and> list_all isHexDigit t"

section \<open>The scan of the files in main\<close>

text \<open>
  What \<open>main\<close> prints, and what it does to file handles, as a list of events in the
  order they happen. Each printing statement of lines 88 to 133 is one constructor;
  \<open>Opened\<close> is a successful \<open>os.Open\<close> and \<open>Closed\<close> the call of \<open>file.Close\<close>.
  \<open>Completed\<close> carries the path, of which line 129 prints the base name.
\<close>

datatype event =
    Searching string
  | DoesNotExist string
  | OpenError string string
  | Opened string
  | ReadError string string
  | Found string int
  | Completed string
  | SearchComplete
  | Closed string

text \<open>
  One call of \<open>file.Read(buf)\<close> returns the bytes read, \<open>buf[:n]\<close>, and an error that is
  absent, \<open>io.EOF\<close>, or a failure with its message.
\<close>

datatype read_error = EOF | ReadFailure string

type_synonym read_result = "byte list \<times> read_error option"

text \<open>
  The file system as \<open>main\<close> sees it, for each path: whether \<open>os.Stat\<close> finds the file,
  the error of \<open>os.Open\<close> if it fails, and the results of the successive calls of \<open>Read\<close>
  on a handle opened for it. A file is finite: after the listed results every further
  \<open>Read\<close> returns no bytes and \<open>io.EOF\<close>.
\<close>

record file_info =
  file_exists :: bool
  open_error :: "string option"
  read_results :: "read_result list"

type_synonym file_system = "string \<Rightarrow> file_info"

definition chunkSize :: nat where
  "chunkSize = 4096"

text \<open>
  The loop that reads and searches one file (lines 109 to 128), from the cumulative
  \<open>offset\<close> and the results of the reads still to come. \<open>None\<close> is a panic of
  \<open>findPattern\<close>.
\<close>

fun scanChunks :: "string \<Rightarrow> byte list \<Rightarrow> int \<Rightarrow> read_result list \<Rightarrow> event list option" where
  "scanChunks filePath pattern offset [] = Some []"
| "scanChunks filePath pattern offset ((chunk, err) # reads) =
     (case err of
        Some (ReadFailure msg) \<Rightarrow> Some [ReadError filePath msg]
      | _ \<Rightarrow>
          if length chunk = 0 then Some []
          else
            (case findPattern chunk pattern of
               None \<Rightarrow> None
             | Some positions \<Rightarrow>
                 (case scanChunks filePath pattern (offset + int (length chunk)) reads of
                    None \<Rightarrow> None
                  | Some later \<Rightarrow>
                      Some (map (\<lambda>pos. Found filePath (offset + pos)) positions @ later))))"

text \<open>
  The state of \<open>main\<close> while it walks the files: the events so far, and the stack of
  deferred calls of \<open>file.Close\<close>, the latest first. A \<open>defer\<close> statement pushes a call
  that runs when the surrounding function, here \<open>main\<close>, returns.
\<close>

record main_state =
  events :: "event list"
  deferred :: "string list"

definition emit :: "event list \<Rightarrow> main_state \<Rightarrow> main_state" where
  "emit evs st = st\<lparr>events := events st @ evs\<rparr>"

text \<open>
  The body of the loop over the files (lines 89 to 129) for one path: the file is
  skipped when it does not exist or cannot be opened; otherwise it is opened, its
  \<open>Close\<close> is deferred, and it is read and searched from offset 0.
\<close>

definition scanFile :: "file_system \<Rightarrow> byte list \<Rightarrow> string \<Rightarrow> main_state \<Rightarrow> main_state option" where
  "scanFile fs pattern filePath st =
     (let st1 = emit [Searching filePath] st in
      if \<not> file_exists (fs filePath) then Some (emit [DoesNotExist filePath] st1)
      else
        (case open_error (fs filePath) of
           Some msg \<Rightarrow> Some (emit [OpenError filePath msg] st1)
         | None \<Rightarrow>
             (let st2 = emit [Opened filePath] st1;
                  st3 = st2\<lparr>deferred := filePath # deferred st2\<rparr>
              in case scanChunks filePath pattern 0 (read_results (fs filePath)) of
                   None \<Rightarrow> None
                 | Some found \<Rightarrow> Some (emit (found @ [Completed filePath]) st3))))"

text \<open>The loop over the files (lines 88 to 130), in the order of the list.\<close>

fun scanFiles :: "file_system \<Rightarrow> byte list \<Rightarrow> string list \<Rightarrow> main_state \<Rightarrow> main_state option" where
  "scanFiles fs pattern [] st = Some st"
| "scanFiles fs pattern (filePath # files) st =
     (case scanFile fs pattern filePath st of
        None \<Rightarrow> None
      | Some st' \<Rightarrow> scanFiles fs pattern files st')"

text \<open>
  \<open>main\<close> from line 87 on, for the files and the pattern read before: the loop over the
  files, the closing message, and the deferred calls as \<open>main\<close> returns, the latest
  first.
\<close>

definition mainScan :: "file_system \<Rightarrow> byte list \<Rightarrow> string list \<Rightarrow> event list option" where
  "mainScan fs pattern files =
     (case scanFiles fs pattern files \<lparr>events = [], deferred = []\<rparr> of
        None \<Rightarrow> None
      | Some st \<Rightarrow> Some (events st @ [SearchComplete] @ map Closed (deferred st)))"

text \<open>What the loop over the files prints, from an empty state.\<close>

definition batchEvents :: "file_system \<Rightarrow> byte list \<Rightarrow> string list \<Rightarrow> event list option" where
  "batchEvents fs pattern files =
     map_option events (scanFiles fs pattern files \<lparr>events = [], deferred = []\<rparr>)"

subsection \<open>Reads after which the scan goes on\<close>

text \<open>
  The scan of a file goes on after a read that did not fail and returned at least one
  byte; it stops at a failure and at a read of no bytes. \<open>consumed reads k\<close> is the
  number of bytes the first \<open>k\<close> reads returned.
\<close>

definition proceeds :: "read_result \<Rightarrow> bool" where
  "proceeds r \<longleftrightarrow> (case snd r of Some (ReadFailure msg) \<Rightarrow> False | _ \<Rightarrow> fst r \<noteq> [])"

definition consumed :: "read_result list \<Rightarrow> nat \<Rightarrow> int" where
  "consumed reads k = int (length (concat (map fst (take k reads))))"

text \<open>
  What the scan of one file reports, in closed form: for each read before the first at
  which the scan stops, in order, the positions \<open>findPattern\<close> finds in its chunk, each
  added to the bytes consumed before; then the error message if the scan stopped at a
  failed read.
\<close>

definition reported :: "string \<Rightarrow> byte list \<Rightarrow> int \<Rightarrow> read_result list \<Rightarrow> event list" where
  "reported path P off reads =
     concat (map (\<lambda>k. map (\<lambda>pos. Found path (off + consumed reads k + pos))
                          (the (findPattern (fst (reads ! k)) P)))
                 [0 ..< length (takeWhile proceeds reads)])"

definition stopEvent :: "string \<Rightarrow> read_result list \<Rightarrow> event list" where
  "stopEvent path reads =
     (case dropWhile proceeds reads of
        (chunk, Some (ReadFailure msg)) # later \<Rightarrow> [ReadError path msg]
      | _ \<Rightarrow> [])"

text \<open>
  The events of one file in the batch, as the body of the loop produces them; the
  matches are those of \<open>scanChunks\<close>.
\<close>

definition fileEvents :: "file_system \<Rightarrow> byte list \<Rightarrow> string \<Rightarrow> event list" where
  "fileEvents fs pattern filePath =
     (if \<not> file_exists (fs filePath) then [Searching filePath, DoesNotExist filePath]
      else
        (case open_error (fs filePath) of
           Some msg \<Rightarrow> [Searching filePath, OpenError filePath msg]
         | None \<Rightarrow>
             [Searching filePath, Opened filePath]
             @ the (scanChunks filePath pattern 0 (read_results (fs filePath)))
             @ [Completed filePath]))"

subsection \<open>A regular file read in full chunks\<close>

text \<open>
  A file whose bytes are consumed in successive chunks of \<open>chunkSize\<close> bytes: every
  \<open>Read\<close> fills the buffer, except the last one, which returns what is left.
\<close>

function chunksOf :: "nat \<Rightarrow> 'a list \<Rightarrow> 'a list list" where
  "chunksOf n xs = (if n = 0 \<or> xs = [] then [] else take n xs # chunksOf n (drop n xs))"
  by pat_completeness auto
termination
  by (relation "measure (\<lambda>(n, xs). length xs)") auto

definition fullReads :: "byte list \<Rightarrow> read_result list" where
  "fullReads content = map (\<lambda>chunk. (chunk, None)) (chunksOf chunkSize content)"

subsection \<open>A batch of two files\<close>

text \<open>
  Two files that exist and open. The first read of \<open>a\<close> returns the byte \<open>AA\<close>, its
  second read fails, and a third would return \<open>AA\<close> again; \<open>b\<close>, and any other path,
  holds the two bytes \<open>00 AA\<close>.
\<close>

definition twoFiles :: file_system where
  "twoFiles path =
     (if path = ''a'' then
        \<lparr>file_exists = True, open_error = None,
         read_results = [([0xAA], None), ([], Some (ReadFailure ''io'')), ([0xAA], None)]\<rparr>
      else
        \<lparr>file_exists = True, open_error = None, read_results = [([0, 0xAA], None)]\<rparr>)"

section \<open>Properties of findPattern\<close>

declare findPattern_loop.simps [simp del]

declare chunksOf.simps [simp del]

lemma findPattern_loop_filter:
  "0 \<le> i \<Longrightarrow>
   findPattern_loop data pattern i positions =
     Some (positions @ filter (occurs_at data pattern) [i .. int (length data) - int (length pattern)])"
proof (induction data pattern i positions rule: findPattern_loop.induct)
  case (1 data pattern i positions)
  show ?case
  proof (cases "i \<le> int (length data) - int (length pattern)")
    case False
    then show ?thesis
      by (subst findPattern_loop.simps) simp
  next
    case True
    with "1.prems" have sl: "slice data i (i + int (length pattern))
        = Some (take (length pattern) (drop (nat i) data))"
      by (simp add: slice_def)
    have occ: "occurs_at data pattern i \<longleftrightarrow> take (length pattern) (drop (nat i) data) = pattern"
      using True "1.prems" by (simp add: occurs_at_def)
    have up: "[i .. int (length data) - int (length pattern)]
        = i # [i + 1 .. int (length data) - int (length pattern)]"
      using True by (simp add: upto_rec1)
    have ih: "findPattern_loop data pattern (i + 1)
          (if take (length pattern) (drop (nat i) data) = pattern then positions @ [i] else positions)
        = Some ((if take (length pattern) (drop (nat i) data) = pattern then positions @ [i] else positions)
            @ filter (occurs_at data pattern) [i + 1 .. int (length data) - int (length pattern)])"
      using "1.IH" [OF refl refl True sl] "1.prems" by simp
    show ?thesis
      by (subst findPattern_loop.simps) (simp add: Let_def True sl ih up occ)
  qed
qed

lemma findPattern_filter:
  "findPattern data pattern =
     Some (filter (occurs_at data pattern) [0 .. int (length data) - int (length pattern)])"
  by (simp add: findPattern_def findPattern_loop_filter)

lemma occurs_at_slice:
  "occurs_at data pattern i \<longleftrightarrow> slice data i (i + int (length pattern)) = Some pattern"
  by (auto simp: occurs_at_def slice_def)

lemma set_filter_upto:
  "set (filter (occurs_at data pattern) [0 .. int (length data) - int (length pattern)])
     = {i. occurs_at data pattern i}"
  by (auto simp: occurs_at_def)

subsection \<open>findPattern reports every occurrence\<close>

text \<open>
  C1. For every data block and every non-empty pattern that is not longer than the data,
  \<open>findPattern\<close> returns (without a panic) each index \<open>i\<close> with
  \<open>data[i:i+len(pattern)] == pattern\<close> exactly once, and no other index. Occurrences that
  overlap are reported each on its own: the pattern \<open>AA AA\<close> is found in \<open>AA AA AA\<close>
  at the offsets 0 and 1.
\<close>

theorem findPattern_exhaustive:
  "(pattern \<noteq> [] \<and> length pattern \<le> length data \<longrightarrow>
      (\<exists>positions. findPattern data pattern = Some positions \<and> distinct positions \<and>
         set positions = {i. slice data i (i + int (length pattern)) = Some pattern})) \<and>
   findPattern [0xAA, 0xAA, 0xAA] [0xAA, 0xAA] = Some [0, 1]"
proof -
  have "set (filter (occurs_at data pattern) [0 .. int (length data) - int (length pattern)])
      = {i. slice data i (i + int (length pattern)) = Some pattern}"
    unfolding set_filter_upto by (auto simp: occurs_at_slice)
  moreover have "findPattern [0xAA, 0xAA, 0xAA] [0xAA, 0xAA] = Some [0, 1]"
    by (simp add: findPattern_filter occurs_at_def upto.simps)
  ultimately show ?thesis
    by (simp add: findPattern_filter)
qed

theorem findPattern_exhaustive_witness:
  "[0xAA, 0xAA] \<noteq> ([] :: byte list) \<and>
   length [0xAA, 0xAA :: byte] \<le> length [0xAA, 0xAA, 0xAA :: byte] \<and>
   (\<exists>positions. findPattern [0xAA, 0xAA, 0xAA] [0xAA, 0xAA] = Some positions \<and>
      distinct positions \<and>
      set positions = {i. slice [0xAA, 0xAA, 0xAA] i (i + int (length [0xAA, 0xAA :: byte]))
                            = Some [0xAA, 0xAA :: byte]})"
proof -
  have h: "[0xAA, 0xAA] \<noteq> ([] :: byte list) \<and>
      length [0xAA, 0xAA :: byte] \<le> length [0xAA, 0xAA, 0xAA :: byte]"
    by simp
  with findPattern_exhaustive [of "[0xAA, 0xAA]" "[0xAA, 0xAA, 0xAA]"] show ?thesis
    by blast
qed

subsection \<open>The positions found are increasing and in range\<close>

text \<open>
  C10. For every data block and pattern, \<open>findPattern\<close> returns without a panic; the
  list it returns is strictly increasing, every position in it lies between 0 and
  \<open>len(data) - len(pattern)\<close>, and it is empty when the pattern is longer than the data.
\<close>

theorem findPattern_positions:
  "\<exists>positions. findPattern data pattern = Some positions \<and> sorted_wrt (<) positions \<and>
     (\<forall>i \<in> set positions. 0 \<le> i \<and> i \<le> int (length data) - int (length pattern)) \<and>
     (length data < length pattern \<longrightarrow> positions = [])"
  by (auto simp: findPattern_filter sorted_wrt_filter)

theorem findPattern_positions_witness:
  "(\<exists>positions. findPattern [0xAA, 0xAA, 0xAA] [0xAA, 0xAA] = Some positions \<and>
      positions = [0, 1] \<and> sorted_wrt (<) positions \<and>
      (\<forall>i \<in> set positions. 0 \<le> i \<and> i \<le> 3 - 2)) \<and>
   length [0xAA :: byte] < length [0xAA, 0xAA :: byte] \<and>
   findPattern [0xAA] [0xAA, 0xAA] = Some []"
  using findPattern_positions [of "[0xAA, 0xAA, 0xAA]" "[0xAA, 0xAA]"]
    findPattern_positions [of "[0xAA]" "[0xAA, 0xAA]"]
  by (auto simp: findPattern_filter occurs_at_def upto.simps)

subsection \<open>The empty pattern\<close>

text \<open>
  C5. \<open>parsePattern\<close> accepts the empty string, in hex mode, and returns the empty byte
  sequence. With the empty pattern, \<open>findPattern\<close> reports every offset from 0 to the
  length of the data, the length included: one more match than the data has bytes.
\<close>

theorem empty_pattern:
  "parsePattern '''' = Inr [] \<and> DecodeString '''' = ([], None) \<and>
   findPattern data [] = Some [0 .. int (length data)] \<and>
   length [0 .. int (length data)] = length data + 1"
  by (simp add: parsePattern_def DecodeString_def findPattern_filter occurs_at_def)

section \<open>Properties of parsePattern\<close>

subsection \<open>Hexadecimal digits\<close>

lemma unat_of_char: "unat (of_char c :: byte) = of_char c"
proof -
  have "(of_char c :: nat) < 256" by simp
  then have "unat (of_nat (of_char c) :: byte) = of_char c"
    by (simp add: unat_of_nat)
  then show ?thesis by (simp add: of_nat_of_char)
qed

lemma char_eq_iff: "c = d \<longleftrightarrow> (of_char c :: nat) = of_char d"
  using inj_of_char [where ?'a = nat] by (auto dest: injD)

lemma isHexDigit_nat:
  "isHexDigit c \<longleftrightarrow> (48 \<le> (of_char c :: nat) \<and> (of_char c :: nat) \<le> 57) \<or>
     (97 \<le> (of_char c :: nat) \<and> (of_char c :: nat) \<le> 102) \<or>
     (65 \<le> (of_char c :: nat) \<and> (of_char c :: nat) \<le> 70)"
  unfolding isHexDigit_def by (simp add: char_eq_iff) arith

lemma fromHexChar_None_iff: "fromHexChar c = None \<longleftrightarrow> \<not> isHexDigit c"
  by (simp add: fromHexChar_def Let_def isHexDigit_nat word_le_nat_alt unat_of_char)

lemma hextable_digit:
  assumes "k < 16"
  shows "fromHexChar (hextable ! k) = Some (of_nat k)"
proof -
  from assms have "k \<in> {0, 1, 2, 3, 4, 5, 6, 7, 8, 9, 10, 11, 12, 13, 14, 15}"
    by simp arith
  then show ?thesis
    by (elim insertE emptyE) (simp_all add: hextable_def fromHexChar_def)
qed

lemma nibble_roundtrip:
  fixes n :: byte
  assumes "n < 16"
  shows "fromHexChar (hextable ! unat n) = Some n"
proof -
  from assms have "unat n < 16" by (simp add: word_less_nat_alt)
  then show ?thesis using hextable_digit [of "unat n"] by simp
qed

lemma byte_split: "push_bit 4 (drop_bit 4 v) OR (v AND 0x0f) = (v :: byte)"
proof -
  have m: "(0x0f :: byte) = mask 4" by (simp add: mask_eq_exp_minus_1)
  show ?thesis
    unfolding m by (rule bit_word_eqI) (auto simp: bit_simps)
qed

lemma lo_nibble: "(v :: byte) AND 0x0f < 16"
proof -
  have "v AND 0x0f \<le> 0x0f" by (rule word_and_le1)
  then show ?thesis by (simp add: word_le_nat_alt word_less_nat_alt)
qed

lemma hi_nibble: "drop_bit 4 (v :: byte) < 16"
proof -
  have "unat v < 2 ^ LENGTH(8)" by (rule unsigned_less)
  then have "unat v < 256" by simp
  then have "unat v div 16 < 16" by simp
  then show ?thesis
    unfolding word_less_nat_alt unat_drop_bit_eq by (simp add: drop_bit_eq_div)
qed


lemma Decode_EncodeToString: "Decode (EncodeToString bs) = (bs, None)"
  by (induction bs) (simp_all add: nibble_roundtrip hi_nibble lo_nibble byte_split)

lemma isHexDigit_iff: "isHexDigit c \<longleftrightarrow> (\<exists>a. fromHexChar c = Some a)"
  using fromHexChar_None_iff [of c] by auto

lemma Decode_ok_iff: "snd (Decode s) = None \<longleftrightarrow> hexString s"
  by (induction s rule: Decode.induct)
    (auto simp: hexString_def isHexDigit_iff split: option.splits prod.splits)

lemma Decode_ok_length: "snd (Decode s) = None \<Longrightarrow> 2 * length (fst (Decode s)) = length s"
  by (induction s rule: Decode.induct) (auto split: option.splits prod.splits)

lemma token_ok_iff:
  "snd (DecodeString t) = None \<and> length (fst (DecodeString t)) = 1 \<longleftrightarrow> twoHexDigits t"
proof
  assume a: "snd (DecodeString t) = None \<and> length (fst (DecodeString t)) = 1"
  then have "length t = 2" using Decode_ok_length [of t] by (simp add: DecodeString_def)
  moreover from a have "hexString t" by (simp add: DecodeString_def Decode_ok_iff)
  ultimately show "twoHexDigits t" by (simp add: twoHexDigits_def hexString_def)
next
  assume a: "twoHexDigits t"
  then have h: "hexString t" by (simp add: twoHexDigits_def hexString_def)
  then have ok: "snd (Decode t) = None" by (simp add: Decode_ok_iff)
  from a Decode_ok_length [OF ok] have "length (fst (Decode t)) = 1"
    by (simp add: twoHexDigits_def)
  with ok show "snd (DecodeString t) = None \<and> length (fst (DecodeString t)) = 1"
    by (simp add: DecodeString_def)
qed

lemma parseParts_error_iff:
  "isl (parseParts ts) \<longleftrightarrow> (\<exists>t \<in> set ts. \<not> twoHexDigits (TrimPrefix t ''0x''))"
proof (induction ts)
  case Nil
  then show ?case by simp
next
  case (Cons t ts)
  obtain bs err where d: "DecodeString (TrimPrefix t ''0x'') = (bs, err)"
    by (cases "DecodeString (TrimPrefix t ''0x'')")
  have tok: "twoHexDigits (TrimPrefix t ''0x'') \<longleftrightarrow> err = None \<and> length bs = 1"
    using token_ok_iff [of "TrimPrefix t ''0x''"] d by simp
  show ?case
    using Cons.IH by (auto simp: d tok Let_def split: sum.splits)
qed

subsection \<open>Hex mode inverts the hex encoding\<close>

text \<open>
  C8. For every byte sequence, \<open>parsePattern\<close> applied to its lower-case hex encoding
  returns the sequence; \<open>deadbeef\<close>, the encoding of \<open>DE AD BE EF\<close>, parses to these
  four bytes.
\<close>

theorem hex_roundtrip:
  "parsePattern (EncodeToString bs) = Inr bs \<and>
   parsePattern ''deadbeef'' = Inr [0xDE, 0xAD, 0xBE, 0xEF] \<and>
   EncodeToString [0xDE, 0xAD, 0xBE, 0xEF] = ''deadbeef''"
  by (simp add: parsePattern_def DecodeString_def Decode_EncodeToString fromHexChar_def hextable_def)


subsection \<open>When parsePattern fails\<close>

text \<open>
  C6. \<open>parsePattern\<close> is total, and it returns an error exactly when the input is in
  neither format: it is no contiguous hex string of even length, and one of its tokens
  between white space, without a leading \<open>0x\<close>, is not exactly two hexadecimal digits.
  The input \<open>zz\<close> is rejected with the error.
\<close>

theorem parsePattern_error_iff:
  "(isl (parsePattern s) \<longleftrightarrow>
      \<not> hexString s \<and> (\<exists>t \<in> set (Fields s). \<not> twoHexDigits (TrimPrefix t ''0x''))) \<and>
   parsePattern ''zz'' = Inl (InvalidByteFormat ''zz'')"
proof -
  obtain bs err where d: "DecodeString s = (bs, err)"
    by (cases "DecodeString s")
  have "err = None \<longleftrightarrow> hexString s"
    using Decode_ok_iff [of s] d by (simp add: DecodeString_def)
  then have "isl (parsePattern s) \<longleftrightarrow>
      \<not> hexString s \<and> (\<exists>t \<in> set (Fields s). \<not> twoHexDigits (TrimPrefix t ''0x''))"
    by (auto simp: parsePattern_def d parseParts_error_iff)
  moreover have "parsePattern ''zz'' = Inl (InvalidByteFormat ''zz'')"
    by (simp add: parsePattern_def DecodeString_def fromHexChar_def Fields_def
        DecodeRuneInString_def IsSpace_def TrimPrefix_def)
  ultimately show ?thesis by simp
qed


theorem parsePattern_error_iff_witness:
  "\<not> hexString ''zz'' \<and> (\<exists>t \<in> set (Fields ''zz''). \<not> twoHexDigits (TrimPrefix t ''0x'')) \<and>
   isl (parsePattern ''zz'') \<and>
   \<not> hexString ''0xDE AD'' \<and> list_all (\<lambda>t. twoHexDigits (TrimPrefix t ''0x'')) (Fields ''0xDE AD'') \<and>
   \<not> isl (parsePattern ''0xDE AD'')"
proof -
  have f: "Fields ''zz'' = [''zz'']" "Fields ''0xDE AD'' = [''0xDE'', ''AD'']"
    by (simp_all add: Fields_def DecodeRuneInString_def IsSpace_def)
  have h: "\<not> hexString ''zz''" "\<not> twoHexDigits (TrimPrefix ''zz'' ''0x'')"
    "\<not> hexString ''0xDE AD''" "twoHexDigits (TrimPrefix ''0xDE'' ''0x'')"
    "twoHexDigits (TrimPrefix ''AD'' ''0x'')"
    by (simp_all add: hexString_def twoHexDigits_def isHexDigit_def TrimPrefix_def)
  show ?thesis
    using parsePattern_error_iff [of "''zz''"] parsePattern_error_iff [of "''0xDE AD''"]
    by (simp add: f h)
qed

subsection \<open>Tokens with and without the prefix 0x\<close>

lemma DecodeRune_hex:
  assumes "isHexDigit c"
  shows "DecodeRuneInString (c # s) = (of_char c, 1)" and "\<not> IsSpace (of_char c)"
proof -
  from assms have "(of_char c :: nat) < 0x80"
    by (auto simp: isHexDigit_nat)
  then show "DecodeRuneInString (c # s) = (of_char c, 1)"
    by (simp add: DecodeRuneInString_def)
  from assms show "\<not> IsSpace (of_char c)"
    by (auto simp: isHexDigit_nat IsSpace_def)
qed

lemma Fields_loop_hex:
  "list_all isHexDigit s \<Longrightarrow> Fields_loop s field = (if field @ s = [] then [] else [field @ s])"
  by (induction s arbitrary: field) (simp_all add: DecodeRune_hex)

lemma Fields_hexString: "hexString s \<Longrightarrow> Fields s = (if s = [] then [] else [s])"
  using Fields_loop_hex [of s "[]"] by (simp add: Fields_def hexString_def)

lemma TrimPrefix_hex: "list_all isHexDigit s \<Longrightarrow> TrimPrefix s ''0x'' = s"
  by (cases s rule: Decode.cases) (auto simp: TrimPrefix_def isHexDigit_def)

lemma parseParts_ok:
  "\<forall>t \<in> set ts. twoHexDigits (TrimPrefix t ''0x'') \<Longrightarrow>
   parseParts ts = Inr (concat (map (\<lambda>t. fst (DecodeString (TrimPrefix t ''0x''))) ts))"
proof (induction ts)
  case Nil
  then show ?case by simp
next
  case (Cons t ts)
  obtain bs err where d: "DecodeString (TrimPrefix t ''0x'') = (bs, err)"
    by (cases "DecodeString (TrimPrefix t ''0x'')")
  from Cons.prems have "twoHexDigits (TrimPrefix t ''0x'')" by simp
  then have ok: "err = None" "length bs = 1"
    using token_ok_iff [of "TrimPrefix t ''0x''"] d by simp_all
  then obtain b where bs: "bs = [b]"
    by (cases bs) simp_all
  from Cons show ?case
    by (simp add: d ok bs Let_def)
qed

lemma parsePattern_tokens:
  assumes "\<forall>t \<in> set (Fields s). twoHexDigits (TrimPrefix t ''0x'')"
  shows "parsePattern s = Inr (concat (map (\<lambda>t. fst (DecodeString (TrimPrefix t ''0x''))) (Fields s)))"
proof (cases "snd (DecodeString s) = None")
  case False
  then show ?thesis
    using parseParts_ok [OF assms] by (auto simp: parsePattern_def split: prod.splits)
next
  case True
  then have h: "hexString s" by (simp add: DecodeString_def Decode_ok_iff)
  then have t: "TrimPrefix s ''0x'' = s" by (simp add: hexString_def TrimPrefix_hex)
  show ?thesis
  proof (cases "s = []")
    case True
    then show ?thesis by (simp add: parsePattern_def DecodeString_def Fields_def)
  next
    case False
    with True show ?thesis
      by (auto simp: parsePattern_def Fields_hexString [OF h] t split: prod.splits)
  qed
qed

text \<open>
  C9. Tokenized-byte mode does not depend on the prefix \<open>0x\<close> of a token. Two inputs
  whose tokens between white space agree once a leading \<open>0x\<close> is removed from each, all
  of them bytes of two hexadecimal digits, parse to the same byte sequence, the bytes of
  the tokens in order. \<open>0xDE 0xAD 0xBE 0xEF\<close> and \<open>DE AD BE EF\<close> both parse to
  \<open>DE AD BE EF\<close>.
\<close>

theorem tokenized_prefix_insensitive:
  "(map (\<lambda>t. TrimPrefix t ''0x'') (Fields s) = map (\<lambda>t. TrimPrefix t ''0x'') (Fields s') \<and>
    (\<forall>t \<in> set (Fields s). twoHexDigits (TrimPrefix t ''0x'')) \<longrightarrow>
      parsePattern s = parsePattern s' \<and>
      parsePattern s = Inr (concat (map (\<lambda>t. fst (DecodeString (TrimPrefix t ''0x''))) (Fields s)))) \<and>
   parsePattern ''0xDE 0xAD 0xBE 0xEF'' = Inr [0xDE, 0xAD, 0xBE, 0xEF] \<and>
   parsePattern ''DE AD BE EF'' = Inr [0xDE, 0xAD, 0xBE, 0xEF]"
proof -
  have "parsePattern s = parsePattern s' \<and>
      parsePattern s = Inr (concat (map (\<lambda>t. fst (DecodeString (TrimPrefix t ''0x''))) (Fields s)))"
    if eq: "map (\<lambda>t. TrimPrefix t ''0x'') (Fields s) = map (\<lambda>t. TrimPrefix t ''0x'') (Fields s')"
      and ok: "\<forall>t \<in> set (Fields s). twoHexDigits (TrimPrefix t ''0x'')"
  proof -
    from ok have "\<forall>u \<in> set (map (\<lambda>t. TrimPrefix t ''0x'') (Fields s)). twoHexDigits u"
      by simp
    then have "\<forall>u \<in> set (map (\<lambda>t. TrimPrefix t ''0x'') (Fields s')). twoHexDigits u"
      by (simp only: eq)
    then have ok': "\<forall>t \<in> set (Fields s'). twoHexDigits (TrimPrefix t ''0x'')"
      by simp
    have c: "concat (map (\<lambda>t. fst (DecodeString (TrimPrefix t ''0x''))) ts)
        = concat (map (\<lambda>u. fst (DecodeString u)) (map (\<lambda>t. TrimPrefix t ''0x'') ts))" for ts
      by (simp add: comp_def)
    show ?thesis
      using parsePattern_tokens [OF ok] parsePattern_tokens [OF ok'] by (simp only: c eq simp_thms)
  qed
  moreover have "parsePattern ''0xDE 0xAD 0xBE 0xEF'' = Inr [0xDE, 0xAD, 0xBE, 0xEF]"
    by (simp add: parsePattern_def DecodeString_def fromHexChar_def Fields_def
        DecodeRuneInString_def IsSpace_def TrimPrefix_def)
  moreover have "parsePattern ''DE AD BE EF'' = Inr [0xDE, 0xAD, 0xBE, 0xEF]"
    by (simp add: parsePattern_def DecodeString_def fromHexChar_def Fields_def
        DecodeRuneInString_def IsSpace_def TrimPrefix_def)
  ultimately show ?thesis by blast
qed


theorem tokenized_prefix_insensitive_witness:
  "map (\<lambda>t. TrimPrefix t ''0x'') (Fields ''0xDE AD 0xBE EF'')
     = map (\<lambda>t. TrimPrefix t ''0x'') (Fields ''DE 0xAD BE  0xEF'') \<and>
   list_all (\<lambda>t. twoHexDigits (TrimPrefix t ''0x'')) (Fields ''0xDE AD 0xBE EF'') \<and>
   parsePattern ''0xDE AD 0xBE EF'' = parsePattern ''DE 0xAD BE  0xEF''"
proof -
  have f: "Fields ''0xDE AD 0xBE EF'' = [''0xDE'', ''AD'', ''0xBE'', ''EF'']"
    "Fields ''DE 0xAD BE  0xEF'' = [''DE'', ''0xAD'', ''BE'', ''0xEF'']"
    by (simp_all add: Fields_def DecodeRuneInString_def IsSpace_def)
  have h: "map (\<lambda>t. TrimPrefix t ''0x'') (Fields ''0xDE AD 0xBE EF'')
        = map (\<lambda>t. TrimPrefix t ''0x'') (Fields ''DE 0xAD BE  0xEF'') \<and>
      (\<forall>t \<in> set (Fields ''0xDE AD 0xBE EF''). twoHexDigits (TrimPrefix t ''0x''))"
    by (simp add: f TrimPrefix_def twoHexDigits_def isHexDigit_def)
  with tokenized_prefix_insensitive [of "''0xDE AD 0xBE EF''" "''DE 0xAD BE  0xEF''"]
  show ?thesis by (simp only: list_all_iff) blast
qed

section \<open>Properties of the scan\<close>

subsection \<open>The offsets reported for one file\<close>

lemma consumed_Cons: "consumed (r # reads) (Suc k) = int (length (fst r)) + consumed reads k"
  by (simp add: consumed_def)

lemma consumed_0: "consumed reads 0 = 0"
  by (simp add: consumed_def)

lemma reported_Cons:
  "proceeds r \<Longrightarrow> reported path P off (r # reads) =
     map (\<lambda>pos. Found path (off + pos)) (the (findPattern (fst r) P))
     @ reported path P (off + int (length (fst r))) reads"
  by (simp add: reported_def upt_conv_Cons map_Suc_upt [symmetric] consumed_0 consumed_Cons
      comp_def add.assoc del: upt_Suc)

lemma scanChunks_closed:
  "scanChunks path P off reads = Some (reported path P off reads @ stopEvent path reads)"
proof (induction reads arbitrary: off)
  case Nil
  then show ?case by (simp add: reported_def stopEvent_def)
next
  case (Cons r reads)
  obtain chunk err where r: "r = (chunk, err)" by (cases r)
  show ?case
  proof (cases "proceeds r")
    case True
    then have "scanChunks path P off (r # reads) =
        Some (map (\<lambda>pos. Found path (off + pos)) (the (findPattern chunk P))
              @ reported path P (off + int (length chunk)) reads @ stopEvent path reads)"
      using Cons.IH [of "off + int (length chunk)"]
      by (auto simp: r proceeds_def findPattern_filter split: option.splits read_error.splits)
    with True show ?thesis
      by (simp add: reported_Cons r stopEvent_def)
  next
    case False
    then show ?thesis
      by (auto simp: r proceeds_def reported_def stopEvent_def split: option.splits read_error.splits)
  qed
qed


text \<open>
  C3. The scan of a file reports, for each chunk it processes, the positions found in
  the chunk, each added to the number of bytes that the reads before it returned (the
  lengths \<open>n\<close> of those reads, whatever the size of the buffer). A position \<open>j\<close> found
  in the second chunk, after a first read of 4096 bytes, is reported as \<open>4096 + j\<close>.
\<close>

theorem scan_offsets:
  "scanChunks path P 0 reads = Some (reported path P 0 reads @ stopEvent path reads) \<and>
   (length c1 = chunkSize \<and> proceeds (c1, e1) \<and> proceeds (c2, e2) \<and>
    findPattern c2 P = Some ps \<and> j \<in> set ps \<longrightarrow>
      (\<exists>evs. scanChunks path P 0 ((c1, e1) # (c2, e2) # rest) = Some evs \<and>
         Found path (4096 + j) \<in> set evs))"
proof -
  have "Found path (4096 + j) \<in> set (reported path P 0 ((c1, e1) # (c2, e2) # rest))"
    if "length c1 = chunkSize" "proceeds (c1, e1)" "proceeds (c2, e2)"
      "findPattern c2 P = Some ps" "j \<in> set ps"
    using that by (simp add: reported_Cons chunkSize_def)
  then show ?thesis
    by (simp add: scanChunks_closed)
qed

theorem scan_offsets_witness:
  "length (replicate 4096 (0 :: byte)) = chunkSize \<and> proceeds (replicate 4096 0, None) \<and>
   proceeds ([0xAA, 0xBB], Some EOF) \<and> findPattern [0xAA, 0xBB] [0xAA, 0xBB] = Some [0] \<and>
   0 \<in> set [0 :: int] \<and>
   (\<exists>evs. scanChunks ''f'' [0xAA, 0xBB] 0 [(replicate 4096 0, None), ([0xAA, 0xBB], Some EOF)] = Some evs \<and>
      Found ''f'' (4096 + 0) \<in> set evs) \<and>
   scanChunks ''f'' [0xAA] 0 [([0, 0, 0xAA], None), ([0xAA], None)] = Some [Found ''f'' 2, Found ''f'' 3]"
proof -
  have h: "length (replicate 4096 (0 :: byte)) = chunkSize \<and> proceeds (replicate 4096 0, None) \<and>
      proceeds ([0xAA, 0xBB], Some EOF) \<and> findPattern [0xAA, 0xBB] [0xAA, 0xBB] = Some [0] \<and>
      0 \<in> set [0 :: int]"
    by (simp add: chunkSize_def proceeds_def findPattern_filter occurs_at_def upto.simps)
  have s: "scanChunks ''f'' [0xAA] 0 [([0, 0, 0xAA], None), ([0xAA], None)]
      = Some [Found ''f'' 2, Found ''f'' 3]"
    by (simp add: findPattern_filter occurs_at_def upto.simps)
  from h s scan_offsets [of "''f''" "[0xAA, 0xBB]" "[]" "replicate 4096 0" None "[0xAA, 0xBB]" "Some EOF" "[0]" 0 "[]"]
  show ?thesis by blast
qed



subsection \<open>Occurrences across a chunk boundary\<close>

lemma scanChunks_step:
  "chunk \<noteq> [] \<Longrightarrow>
   scanChunks path P off ((chunk, None) # reads) =
     map_option
       (\<lambda>later. map (\<lambda>pos. Found path (off + pos))
                   (filter (occurs_at chunk P) [0 .. int (length chunk) - int (length P)]) @ later)
       (scanChunks path P (off + int (length chunk)) reads)"
  by (simp add: findPattern_filter split: option.splits)

lemma chunk_offsets:
  assumes "0 < n"
    and "scanChunks path P off (map (\<lambda>chunk. (chunk, None)) (chunksOf n content)) = Some evs"
    and "Found path x \<in> set evs"
  shows "\<exists>k pos. x = off + int k * int n + pos \<and> 0 \<le> pos \<and> pos + int (length P) \<le> int n"
  using assms
proof (induction n content arbitrary: off evs rule: chunksOf.induct)
  case (1 n xs)
  show ?case
  proof (cases "xs = []")
    case True
    with "1.prems" show ?thesis by (simp add: chunksOf.simps)
  next
    case False
    with "1.prems" have ch: "chunksOf n xs = take n xs # chunksOf n (drop n xs)"
      by (subst chunksOf.simps) simp
    let ?here = "filter (occurs_at (take n xs) P) [0 .. int (length (take n xs)) - int (length P)]"
    from False "1.prems"(1) have ne: "take n xs \<noteq> []" by simp
    from "1.prems"(2) ne obtain later where
      later: "scanChunks path P (off + int (length (take n xs)))
                (map (\<lambda>chunk. (chunk, None)) (chunksOf n (drop n xs))) = Some later"
      and evs: "evs = map (\<lambda>pos. Found path (off + pos)) ?here @ later"
      by (auto simp: ch scanChunks_step [OF ne] simp del: scanChunks.simps length_take)
    from "1.prems"(3) evs consider
      (here) pos where "pos \<in> set ?here" "x = off + pos" | (later) "Found path x \<in> set later"
      by auto
    then show ?thesis
    proof cases
      case here
      then have "0 \<le> pos" "pos + int (length P) \<le> int n" by auto
      with here(2) have "x = off + int 0 * int n + pos \<and> 0 \<le> pos \<and> pos + int (length P) \<le> int n"
        by simp
      then show ?thesis by blast
    next
      case later
      show ?thesis
      proof (cases "drop n xs = []")
        case True
        with later \<open>scanChunks path P (off + int (length (take n xs)))
                (map (\<lambda>chunk. (chunk, None)) (chunksOf n (drop n xs))) = Some later\<close>
        show ?thesis by (simp add: chunksOf.simps)
      next
        case d: False
        then have len: "min (length xs) n = n" by simp
        from "1.prems"(1) False have g: "\<not> (n = 0 \<or> xs = [])" by simp
        from "1.IH" [OF g "1.prems"(1) \<open>scanChunks path P (off + int (length (take n xs)))
                (map (\<lambda>chunk. (chunk, None)) (chunksOf n (drop n xs))) = Some later\<close> later]
        obtain k pos where "x = off + int (length (take n xs)) + int k * int n + pos"
          "0 \<le> pos" "pos + int (length P) \<le> int n"
          by blast
        then have "x = off + int (Suc k) * int n + pos \<and> 0 \<le> pos \<and> pos + int (length P) \<le> int n"
          by (simp add: len algebra_simps)
        then show ?thesis by blast
      qed
    qed
  qed
qed

lemma same_chunk:
  fixes k :: nat and c pos l :: int
  assumes "0 \<le> pos" "pos + l \<le> c" "1 \<le> l"
  shows "(int k * c + pos) div c = (int k * c + pos + l - 1) div c"
proof -
  from assms have c: "0 < c" by simp
  have "(pos + int k * c) div c = int k"
    using assms c by (simp add: div_pos_pos_trivial)
  moreover have "(pos + l - 1 + int k * c) div c = int k"
    using assms c by (simp add: div_pos_pos_trivial)
  ultimately show ?thesis by (simp add: algebra_simps)
qed

text \<open>
  C2. When a file is consumed in successive chunks of 4096 bytes, an occurrence of a
  pattern of at least two bytes that starts in one chunk and ends in the next is not
  reported: each chunk is searched on its own.
\<close>

theorem straddling_missed:
  "2 \<le> length P \<and> occurs_at content P i \<and>
   i div int chunkSize \<noteq> (i + int (length P) - 1) div int chunkSize \<longrightarrow>
     (\<exists>evs. scanChunks path P 0 (fullReads content) = Some evs \<and> Found path i \<notin> set evs)"
proof (intro impI, elim conjE)
  assume P: "2 \<le> length P"
    and st: "i div int chunkSize \<noteq> (i + int (length P) - 1) div int chunkSize"
  obtain evs where evs: "scanChunks path P 0 (fullReads content) = Some evs"
    by (simp add: scanChunks_closed)
  have "Found path i \<notin> set evs"
  proof
    assume "Found path i \<in> set evs"
    with evs chunk_offsets [of chunkSize path P 0 content evs i]
    obtain k pos where "i = int k * int chunkSize + pos" "0 \<le> pos"
      "pos + int (length P) \<le> int chunkSize"
      by (auto simp: fullReads_def chunkSize_def)
    with same_chunk [of pos "int (length P)" "int chunkSize" k] P st show False
      by simp
  qed
  with evs show "\<exists>evs. scanChunks path P 0 (fullReads content) = Some evs \<and> Found path i \<notin> set evs"
    by blast
qed


theorem straddling_missed_witness:
  "2 \<le> length [0xAA, 0xBB :: byte] \<and>
   occurs_at (replicate 4095 0 @ [0xAA, 0xBB]) [0xAA, 0xBB] 4095 \<and>
   4095 div int chunkSize \<noteq> (4095 + int (length [0xAA, 0xBB :: byte]) - 1) div int chunkSize \<and>
   (\<exists>evs. scanChunks ''f'' [0xAA, 0xBB] 0 (fullReads (replicate 4095 0 @ [0xAA, 0xBB])) = Some evs \<and>
      Found ''f'' 4095 \<notin> set evs)"
proof -
  have h: "2 \<le> length [0xAA, 0xBB :: byte] \<and>
      occurs_at (replicate 4095 0 @ [0xAA, 0xBB]) [0xAA, 0xBB] 4095 \<and>
      4095 div int chunkSize \<noteq> (4095 + int (length [0xAA, 0xBB :: byte]) - 1) div int chunkSize"
    by (simp add: occurs_at_def chunkSize_def)
  with straddling_missed [of "[0xAA, 0xBB]" "replicate 4095 0 @ [0xAA, 0xBB]" 4095 "''f''"]
  show ?thesis by blast
qed


subsection \<open>A read error stops one file only\<close>

lemma scanChunks_total: "\<exists>evs. scanChunks path P off reads = Some evs"
  by (simp add: scanChunks_closed)

lemma scanChunks_failure:
  "list_all proceeds pre \<Longrightarrow>
   scanChunks path P off (pre @ (chunk, Some (ReadFailure msg)) # post) =
     map_option (\<lambda>found. found @ [ReadError path msg]) (scanChunks path P off pre)"
proof (induction pre arbitrary: off)
  case Nil
  then show ?case by simp
next
  case (Cons r pre)
  obtain c e where r: "r = (c, e)" by (cases r)
  from Cons.prems have p: "proceeds (c, e)" and "list_all proceeds pre" by (simp_all add: r)
  then have ih: "scanChunks path P (off + int (length c)) (pre @ (chunk, Some (ReadFailure msg)) # post)
      = map_option (\<lambda>found. found @ [ReadError path msg]) (scanChunks path P (off + int (length c)) pre)"
    using Cons.IH by simp
  from p have "c \<noteq> []" "e = None \<or> e = Some EOF"
    by (auto simp: proceeds_def split: option.splits read_error.splits)
  then show ?case
    by (auto simp: r ih findPattern_filter split: option.splits)
qed

lemma scanFile_events:
  "\<exists>st'. scanFile fs P f st = Some st' \<and> events st' = events st @ fileEvents fs P f"
proof -
  obtain found where "scanChunks f P 0 (read_results (fs f)) = Some found"
    using scanChunks_total by blast
  then show ?thesis
    by (simp add: scanFile_def fileEvents_def emit_def Let_def split: option.splits)
qed

lemma scanFiles_events:
  "\<exists>st'. scanFiles fs P files st = Some st' \<and>
     events st' = events st @ concat (map (fileEvents fs P) files)"
proof (induction files arbitrary: st)
  case Nil
  then show ?case by simp
next
  case (Cons f files)
  obtain st1 where st1: "scanFile fs P f st = Some st1" "events st1 = events st @ fileEvents fs P f"
    using scanFile_events by blast
  with Cons.IH [of st1] show ?case by auto
qed

lemma batchEvents_closed: "batchEvents fs P files = Some (concat (map (fileEvents fs P) files))"
  using scanFiles_events [of fs P files "\<lparr>events = [], deferred = []\<rparr>"]
  by (auto simp: batchEvents_def)

text \<open>
  C7. When a read of a file fails with an error other than end of stream, the scan of
  that file stops there: its matches are those of the chunks read before the failure,
  whatever later reads would have returned. The files before it and after it in the
  batch are scanned as they are on their own; every later file that exists and opens is
  searched to its end, its matches and its completion message are part of the output.
\<close>

theorem read_error_isolated:
  "file_exists (fs f) \<and> open_error (fs f) = None \<and>
   read_results (fs f) = pre @ (chunk, Some (ReadFailure msg)) # post \<and> list_all proceeds pre \<longrightarrow>
     (\<exists>found evs_before evs_after.
        scanChunks f P 0 pre = Some found \<and>
        batchEvents fs P before = Some evs_before \<and>
        batchEvents fs P after = Some evs_after \<and>
        batchEvents fs P (before @ f # after) =
          Some (evs_before @ [Searching f, Opened f] @ found @ [ReadError f msg, Completed f]
                @ evs_after) \<and>
        (\<forall>g \<in> set after. file_exists (fs g) \<and> open_error (fs g) = None \<longrightarrow>
           (\<exists>found_g. scanChunks g P 0 (read_results (fs g)) = Some found_g \<and>
              set found_g \<subseteq> set evs_after \<and> Completed g \<in> set evs_after)))"
proof (intro impI, elim conjE)
  assume ex: "file_exists (fs f)" and op: "open_error (fs f) = None"
    and rd: "read_results (fs f) = pre @ (chunk, Some (ReadFailure msg)) # post"
    and pre: "list_all proceeds pre"
  obtain found where found: "scanChunks f P 0 pre = Some found"
    using scanChunks_total by blast
  have f: "fileEvents fs P f = [Searching f, Opened f] @ found @ [ReadError f msg, Completed f]"
    by (simp add: fileEvents_def ex op rd scanChunks_failure [OF pre] found)
  have later: "\<exists>found_g. scanChunks g P 0 (read_results (fs g)) = Some found_g \<and>
      set found_g \<subseteq> set (concat (map (fileEvents fs P) after)) \<and>
      Completed g \<in> set (concat (map (fileEvents fs P) after))"
    if g: "g \<in> set after" "file_exists (fs g)" "open_error (fs g) = None" for g
  proof -
    obtain found_g where fg: "scanChunks g P 0 (read_results (fs g)) = Some found_g"
      using scanChunks_total by blast
    with g(2,3) have "fileEvents fs P g = [Searching g, Opened g] @ found_g @ [Completed g]"
      by (simp add: fileEvents_def)
    moreover from g(1) have "set (fileEvents fs P g) \<subseteq> set (concat (map (fileEvents fs P) after))"
      by auto
    ultimately have "set found_g \<subseteq> set (concat (map (fileEvents fs P) after))"
      "Completed g \<in> set (concat (map (fileEvents fs P) after))"
      by auto
    with fg show ?thesis by blast
  qed
  have "batchEvents fs P (before @ f # after) =
      Some (concat (map (fileEvents fs P) before) @ [Searching f, Opened f] @ found
            @ [ReadError f msg, Completed f] @ concat (map (fileEvents fs P) after))"
    by (simp add: batchEvents_closed f)
  with found later show "\<exists>found evs_before evs_after.
        scanChunks f P 0 pre = Some found \<and>
        batchEvents fs P before = Some evs_before \<and>
        batchEvents fs P after = Some evs_after \<and>
        batchEvents fs P (before @ f # after) =
          Some (evs_before @ [Searching f, Opened f] @ found @ [ReadError f msg, Completed f]
                @ evs_after) \<and>
        (\<forall>g \<in> set after. file_exists (fs g) \<and> open_error (fs g) = None \<longrightarrow>
           (\<exists>found_g. scanChunks g P 0 (read_results (fs g)) = Some found_g \<and>
              set found_g \<subseteq> set evs_after \<and> Completed g \<in> set evs_after))"
    by (simp add: batchEvents_closed)
qed

theorem read_error_isolated_witness:
  "file_exists (twoFiles ''a'') \<and> open_error (twoFiles ''a'') = None \<and>
   read_results (twoFiles ''a'') = [([0xAA], None)] @ ([], Some (ReadFailure ''io'')) # [([0xAA], None)] \<and>
   list_all proceeds [([0xAA], None)] \<and>
   batchEvents twoFiles [0xAA] ([] @ ''a'' # [''b'']) =
     Some [Searching ''a'', Opened ''a'', Found ''a'' 0, ReadError ''a'' ''io'', Completed ''a'',
           Searching ''b'', Opened ''b'', Found ''b'' 1, Completed ''b'']"
proof -
  have h: "file_exists (twoFiles ''a'') \<and> open_error (twoFiles ''a'') = None \<and>
      read_results (twoFiles ''a'') = [([0xAA], None)] @ ([], Some (ReadFailure ''io'')) # [([0xAA], None)] \<and>
      list_all proceeds [([0xAA], None)]"
    by (simp add: twoFiles_def proceeds_def)
  have e: "scanChunks ''a'' [0xAA] 0 [([0xAA], None)] = Some [Found ''a'' 0]"
    "batchEvents twoFiles [0xAA] [] = Some []"
    "batchEvents twoFiles [0xAA] [''b''] = Some [Searching ''b'', Opened ''b'', Found ''b'' 1, Completed ''b'']"
    by (simp_all add: batchEvents_def scanFile_def emit_def twoFiles_def findPattern_filter
        occurs_at_def upto.simps)
  from h read_error_isolated [of twoFiles "''a''" "[([0xAA], None)]" "[]" "''io''" "[([0xAA], None)]"
      "[0xAA]" "[]" "[''b'']"]
  obtain found evs_before evs_after where
    "scanChunks ''a'' [0xAA] 0 [([0xAA], None)] = Some found"
    "batchEvents twoFiles [0xAA] [] = Some evs_before"
    "batchEvents twoFiles [0xAA] [''b''] = Some evs_after"
    "batchEvents twoFiles [0xAA] ([] @ ''a'' # [''b'']) =
       Some (evs_before @ [Searching ''a'', Opened ''a''] @ found
             @ [ReadError ''a'' ''io'', Completed ''a''] @ evs_after)"
    by blast
  with e h show ?thesis by simp
qed

subsection \<open>When the file handles are closed\<close>

text \<open>
  C4. Each file handle should be closed when the scan of its file ends, on an error as
  well, before the next file is processed. In \<open>main\<close> the call of \<open>file.Close\<close> is
  deferred inside the loop, so it runs when \<open>main\<close> returns: with the two files above,
  \<open>b\<close> is opened while \<open>a\<close> is still open, and both are closed after the closing
  message, the later one first.
\<close>

theorem close_deferred_to_exit:
  "mainScan twoFiles [0xAA] [''a'', ''b''] =
     Some [Searching ''a'', Opened ''a'', Found ''a'' 0, ReadError ''a'' ''io'', Completed ''a'',
           Searching ''b'', Opened ''b'', Found ''b'' 1, Completed ''b'',
           SearchComplete, Closed ''b'', Closed ''a'']"
  by (simp add: mainScan_def scanFile_def emit_def twoFiles_def findPattern_filter
      occurs_at_def upto.simps)


end
